theory Spec2Isabelle
  imports Main "HOL-Library.Word" "HOL-Library.Signed_Division" "HOL-Library.Multiset"
begin

unbundle bit_operations_syntax

section \<open>The timing wheel of libgo/common/timer.h\<close>

text \<open>
  The development embeds \<^verbatim>\<open>co::Timer<F>\<close> of \<^verbatim>\<open>src/libgo/common/timer.h\<close>.
  Objects are addressed: an \<^verbatim>\<open>Element*\<close> is a natural number into a store of
  elements, and the address of a \<^verbatim>\<open>Slot\<close> inside \<^verbatim>\<open>slots_\<close> is the pair of its
  level and its index in that level. Field names are the source's without the
  trailing underscore (\<^verbatim>\<open>begin_\<close> and \<^verbatim>\<open>last_\<close> are \<open>beginT\<close> and \<open>lastT\<close>).
  Time points and durations are the \<^verbatim>\<open>count()\<close> of the clock's duration type, an
  integer number of clock units.
\<close>

type_synonym eid = nat
type_synonym slot_ref = "nat \<times> nat"

subsection \<open>LFLock\<close>

text \<open>
  Modelled from the spec: the type \<^verbatim>\<open>LFLock\<close> of \<^verbatim>\<open>spinlock.h\<close>, which is not
  among the sources. The spec describes the gate as ``an atomic state cell with two
  legal transitions (open, held), exposed as a try-acquire operation''. The cell is a
  boolean, \<open>True\<close> when held. \<open>try_lock\<close> returns whether it acquired the cell together
  with the cell afterwards; \<open>unlock\<close> opens the cell; \<open>is_lock\<close> reads it.
\<close>

definition try_lock :: "bool \<Rightarrow> bool \<times> bool" where
  "try_lock flag = (\<not> flag, True)"

definition unlock :: "bool \<Rightarrow> bool" where
  "unlock flag = False"

definition is_lock :: "bool \<Rightarrow> bool" where
  "is_lock flag = flag"

subsection \<open>Timer::Element\<close>

record 'f Element =
  cb :: 'f
  active :: bool
  slot :: "slot_ref option"

text \<open>
  \<^verbatim>\<open>init\<close>, lines 19 to 23: store the callback; \<^verbatim>\<open>if (active_.try_lock())
  active_.unlock();\<close>; clear the slot pointer.
\<close>

definition init :: "'f \<Rightarrow> 'f Element \<Rightarrow> 'f Element" where
  "init c e =
     (let e1 = e\<lparr>cb := c\<rparr>;
          (got, a) = try_lock (active e1);
          e2 = e1\<lparr>active := a\<rparr>;
          e3 = (if got then e2\<lparr>active := unlock (active e2)\<rparr> else e2)
      in e3\<lparr>slot := None\<rparr>)"

text \<open>
  \<^verbatim>\<open>call\<close>, lines 25 to 30. The callback is opaque: running it is recorded as the
  snapshot of the entry at the moment \<^verbatim>\<open>cb_()\<close> is entered, and the second
  component of the result lists the snapshots of the runs this call made. The
  \<^verbatim>\<open>std::unique_lock\<close> that acquired the lock owns it, and its destructor unlocks
  it when \<^verbatim>\<open>call\<close> returns; after a failed \<^verbatim>\<open>try_lock\<close> it owns nothing.
\<close>

definition call :: "'f Element \<Rightarrow> 'f Element \<times> 'f Element list" where
  "call e =
     (let (got, a) = try_lock (active e);
          e1 = e\<lparr>active := a\<rparr>
      in if \<not> got then (e1, [])
         else let e2 = e1\<lparr>slot := None\<rparr>;
                  runs = [e2];
                  e3 = e2\<lparr>active := unlock (active e2)\<rparr>
              in (e3, runs))"

text \<open>\<^verbatim>\<open>isValid\<close>, line 41.\<close>

definition isValid :: "'f Element \<Rightarrow> bool" where
  "isValid e = (\<not> is_lock (active e))"

subsection \<open>Slots\<close>

text \<open>
  Modelled from the spec: \<^verbatim>\<open>TSQueue\<close> of \<^verbatim>\<open>ts_queue.h\<close>, which is not among the
  sources. The spec asks of a slot ``concurrent push, FIFO pop'' and ``erase of a
  specific still-linked entry by identity''. A slot is the list of the addresses
  linked into it, oldest first; \<open>push\<close> links at the tail, \<open>erase\<close> unlinks the
  address and leaves a queue that does not hold it as it is.
\<close>

definition push :: "eid \<Rightarrow> eid list \<Rightarrow> eid list" where
  "push x q = q @ [x]"

definition erase :: "eid \<Rightarrow> eid list \<Rightarrow> eid list" where
  "erase x q = removeAll x q"

text \<open>The slot behind a slot pointer is rewritten in place.\<close>

definition at_slot :: "slot_ref \<Rightarrow> (eid list \<Rightarrow> eid list) \<Rightarrow> eid list list list \<Rightarrow> eid list list list" where
  "at_slot r f ss =
     (case r of (l, i) \<Rightarrow>
        if l < length ss \<and> i < length (ss ! l)
        then ss[l := (ss ! l)[i := f (ss ! l ! i)]]
        else ss)"

subsection \<open>The timer\<close>

text \<open>
  The members of \<^verbatim>\<open>Timer\<close>, lines 82 to 97, and three components of the model:
  \<open>heap\<close> is the store of elements, \<open>brk\<close> the first address never allocated, and
  \<open>fired\<close> the log of callback runs, each with the address of its entry.
\<close>

record 'f Timer =
  minPoolSize :: int
  maxPoolSize :: int
  pool :: "eid list"
  beginT :: int
  precision :: int
  slots :: "eid list list list"
  points :: "int list"
  lastT :: int
  heap :: "eid \<Rightarrow> 'f Element"
  brk :: eid
  fired :: "(eid \<times> 'f Element) list"

record TimerId =
  elem :: "eid option"
  timer :: bool

text \<open>
  A handle holds a shared pointer to its element (\<open>None\<close> when empty) and a pointer
  to its timer, of which only whether it is null matters in a model of one timer.
  \<^verbatim>\<open>operator bool\<close>, lines 52 to 54.
\<close>

definition TimerId_bool :: "TimerId \<Rightarrow> bool" where
  "TimerId_bool tid = (elem tid \<noteq> None \<and> timer tid)"

text \<open>
  \<^verbatim>\<open>Element::cancel\<close>, lines 33 to 38, on the element at address \<open>x\<close>.
\<close>

definition cancel :: "eid \<Rightarrow> 'f Timer \<Rightarrow> bool \<times> 'f Timer" where
  "cancel x t =
     (let e = heap t x;
          (got, a) = try_lock (active e);
          t1 = t\<lparr>heap := (heap t)(x := e\<lparr>active := a\<rparr>)\<rparr>
      in if \<not> got then (False, t1)
         else (True, case slot e of
                       None \<Rightarrow> t1
                     | Some r \<Rightarrow> t1\<lparr>slots := at_slot r (erase x) (slots t1)\<rparr>))"

text \<open>
  \<^verbatim>\<open>Timer::StopTimer\<close>, lines 160 to 163. Line 162 writes \<^verbatim>\<open>id->cancel()\<close> on the
  handle, which declares no such operator; the model reads it as \<^verbatim>\<open>cancel\<close> on
  the element the handle holds, the only call the expression can intend.
\<close>

definition Timer_StopTimer :: "TimerId \<Rightarrow> 'f Timer \<Rightarrow> bool \<times> 'f Timer" where
  "Timer_StopTimer tid t =
     (if TimerId_bool tid
      then (case elem tid of Some x \<Rightarrow> cancel x t | None \<Rightarrow> (True, t))
      else (True, t))"

text \<open>
  \<^verbatim>\<open>TimerId::StopTimer\<close>, line 56: a handle without a timer is already resolved,
  any other is passed to the timer. Line 56 passes the shared pointer \<^verbatim>\<open>elem_\<close>
  where \<^verbatim>\<open>Timer::StopTimer\<close> takes a handle; the model passes the handle.
\<close>

definition StopTimer :: "TimerId \<Rightarrow> 'f Timer \<Rightarrow> bool \<times> 'f Timer" where
  "StopTimer tid t = (if timer tid then Timer_StopTimer tid t else (True, t))"

text \<open>A fire attempt: \<^verbatim>\<open>call\<close> on the element at address \<open>x\<close>.\<close>

definition fire :: "eid \<Rightarrow> 'f Timer \<Rightarrow> 'f Timer" where
  "fire x t =
     (case call (heap t x) of (e, runs) \<Rightarrow>
        t\<lparr>heap := (heap t)(x := e), fired := fired t @ map (Pair x) runs\<rparr>)"

text \<open>
  A sequence of fire and cancel attempts on one entry; the result lists what the
  cancel attempts returned, in order.
\<close>

datatype attempt = Fire | Cancel

fun attempts :: "eid \<Rightarrow> attempt list \<Rightarrow> 'f Timer \<Rightarrow> bool list \<times> 'f Timer" where
  "attempts x [] t = ([], t)"
| "attempts x (Fire # as) t = attempts x as (fire x t)"
| "attempts x (Cancel # as) t =
     (case cancel x t of (r, t1) \<Rightarrow>
        (case attempts x as t1 of (rs, t2) \<Rightarrow> (r # rs, t2)))"

subsection \<open>Arithmetic of the clock\<close>

text \<open>
  Modelled from the spec: \<^verbatim>\<open>FastSteadyClock\<close> of \<^verbatim>\<open>clock.h\<close>, which is not among
  the sources; the spec asks for a monotonic clock whose subtraction yields a
  duration. As in \<^verbatim>\<open>std::chrono\<close>, counts are signed 64-bit integers. Overflow of
  signed arithmetic and division by zero are undefined in the source; the model
  makes each an error. The quotient of two counts truncates towards zero
  (\<open>sdiv\<close>), and its conversion to \<^verbatim>\<open>uint64_t\<close> wraps modulo \<open>2 ^ 64\<close>.
\<close>

datatype error = DivideByZero | SignedOverflow | OutOfRange

definition in_i64 :: "int \<Rightarrow> bool" where
  "in_i64 v = (- (2 ^ 63) \<le> v \<and> v < 2 ^ 63)"

definition in_i32 :: "int \<Rightarrow> bool" where
  "in_i32 v = (- (2 ^ 31) \<le> v \<and> v < 2 ^ 31)"

definition ticks_of :: "int \<Rightarrow> int \<Rightarrow> error + 64 word" where
  "ticks_of n p =
     (if p = 0 then Inl DivideByZero
      else if \<not> in_i64 (n sdiv p) then Inl SignedOverflow
      else Inr (word_of_int (n sdiv p)))"

subsection \<open>StartTimer\<close>

text \<open>
  Modelled from the spec: \<^verbatim>\<open>NewElement\<close>, declared at line 77 and defined nowhere
  in the sources. By the spec, acquiring an entry ``returns a previously-released
  entry, or allocates a new one if the pool is empty''. A new element is
  constructed at the first free address; its lock starts open, its other fields
  hold whatever the memory held, and \<^verbatim>\<open>StartTimer\<close> overwrites them with \<open>init\<close>
  before any use.
\<close>

definition NewElement :: "'f Timer \<Rightarrow> eid \<times> 'f Timer" where
  "NewElement t =
     (case pool t of
        x # xs \<Rightarrow> (x, t\<lparr>pool := xs\<rparr>)
      | [] \<Rightarrow> (brk t, t\<lparr>heap := (heap t)(brk t := (heap t (brk t))\<lparr>active := False\<rparr>),
                         brk := Suc (brk t)\<rparr>))"

text \<open>
  The loop of lines 145 to 149, on \<^verbatim>\<open>level\<close>, \<^verbatim>\<open>durVal1\<close> and \<^verbatim>\<open>durValN\<close>;
  \<open>n\<close> is \<^verbatim>\<open>slots_.size()\<close>.
\<close>

function place_loop :: "nat \<Rightarrow> nat \<Rightarrow> 64 word \<Rightarrow> 64 word \<Rightarrow> nat \<times> 64 word" where
  "place_loop n level durVal1 durValN =
     (if durValN > 0 \<and> level + 1 < n
      then place_loop n (level + 1) durValN (drop_bit 6 durValN)
      else (level, durVal1))"
  by pat_completeness auto
termination
  by (relation "measure (\<lambda>(n, level, durVal1, durValN). n - level)") auto

declare place_loop.simps [simp del]

text \<open>Lines 137 to 151: the level and the offset of a tick count.\<close>

definition place :: "nat \<Rightarrow> 64 word \<Rightarrow> nat \<times> int" where
  "place n durVal =
     (let durVal1 = drop_bit 2 durVal
      in if durVal1 = 0 then (0, uint (durVal AND 3))
         else (case place_loop n 1 durVal1 (drop_bit 6 durVal1) of
                 (level, durVal1') \<Rightarrow> (level, uint (durVal1' AND 63))))"

text \<open>
  Lines 137 to 155 up to the \<^verbatim>\<open>push\<close>: the address of the slot for the tick
  count \<^verbatim>\<open>durVal\<close>. Indexing \<^verbatim>\<open>slots_\<close> or \<^verbatim>\<open>points_\<close> beyond their size is
  an error, as is a level without slots (\<^verbatim>\<open>% 0\<close>). The sum of the cursor and the
  offset is an \<^verbatim>\<open>int\<close>, converted to \<^verbatim>\<open>size_t\<close> for the remainder.
\<close>

definition slot_of :: "64 word \<Rightarrow> 'f Timer \<Rightarrow> error + slot_ref" where
  "slot_of durVal t =
     (case place (length (slots t)) durVal of (level, offset) \<Rightarrow>
        if \<not> level < length (slots t) \<or> \<not> level < length (points t) then Inl OutOfRange
        else if \<not> in_i32 (points t ! level + offset) then Inl SignedOverflow
        else if length (slots t ! level) = 0 then Inl DivideByZero
        else Inr (level,
                  unat (word_of_int (points t ! level + offset) :: 64 word)
                    mod length (slots t ! level)))"

text \<open>Line 136 and the lines above: the slot of an entry armed at \<open>now\<close> for \<open>dur\<close>.\<close>

definition StartTimer_slot :: "int \<Rightarrow> int \<Rightarrow> 'f Timer \<Rightarrow> error + slot_ref" where
  "StartTimer_slot now dur t =
     (if \<not> in_i64 (now + dur) \<or> \<not> in_i64 (now + dur - beginT t) then Inl SignedOverflow
      else case ticks_of (now + dur - beginT t) (precision t) of
        Inl e \<Rightarrow> Inl e
      | Inr durVal \<Rightarrow> slot_of durVal t)"

text \<open>\<^verbatim>\<open>StartTimer\<close>, lines 132 to 157.\<close>

definition StartTimer :: "int \<Rightarrow> int \<Rightarrow> 'f \<Rightarrow> 'f Timer \<Rightarrow> error + TimerId \<times> 'f Timer" where
  "StartTimer now dur c t =
     (case NewElement t of (x, t1) \<Rightarrow>
        (let t2 = t1\<lparr>heap := (heap t1)(x := init c (heap t1 x))\<rparr>
         in (case StartTimer_slot now dur t2 of
               Inl e \<Rightarrow> Inl e
             | Inr r \<Rightarrow> Inr (\<lparr>elem = Some x, timer = True\<rparr>,
                            t2\<lparr>slots := at_slot r (push x) (slots t2)\<rparr>))))"

subsection \<open>Construction\<close>

text \<open>
  The constructor is a template over the representation and the period of its
  argument. The model covers signed integer representations: \<open>w\<close> is the width in
  bits of the representation of \<^verbatim>\<open>timeRange\<close>, which is the common type of the
  argument's representation and \<^verbatim>\<open>int\<close>, and a product that does not fit it is
  an error, as signed overflow is undefined in the source.
\<close>

definition in_rep :: "nat \<Rightarrow> int \<Rightarrow> bool" where
  "in_rep w v = (- (2 ^ (w - 1)) \<le> v \<and> v < 2 ^ (w - 1))"

text \<open>
  The loop of lines 113 to 116. \<open>years4\<close> is \<^verbatim>\<open>std::chrono::years(4)\<close> counted in
  the period of \<^verbatim>\<open>precision\<close>, rounded down, so that the comparison of the two
  durations is the comparison of the two counts. The loop need not end, and the
  function is partial: \<open>None\<close> is a constructor that does not return.
\<close>

partial_function (option) level_loop :: "nat \<Rightarrow> int \<Rightarrow> int \<Rightarrow> nat \<Rightarrow> (error + nat) option" where
  "level_loop w timeRange years4 level =
     (if timeRange \<le> years4
      then (if in_rep w (timeRange * 64)
            then level_loop w (timeRange * 64) years4 (level + 1)
            else Some (Inl SignedOverflow))
      else Some (Inr level))"

declare level_loop.simps [code]

text \<open>
  The constructor, lines 106 to 122. \<open>now\<close> is the reading of the clock, \<open>prec\<close> the
  count of the argument in its own period, \<open>prec_cast\<close> its \<^verbatim>\<open>duration_cast\<close> to
  the clock's period, and \<open>mem\<close> the memory elements will be allocated from.
\<close>

definition Timer_ctor ::
  "nat \<Rightarrow> int \<Rightarrow> int \<Rightarrow> int \<Rightarrow> int \<Rightarrow> (eid \<Rightarrow> 'f Element) \<Rightarrow> (error + 'f Timer) option" where
  "Timer_ctor w now prec prec_cast years4 mem =
     (if \<not> in_rep w (prec * 4) then Some (Inl SignedOverflow)
      else case level_loop w (prec * 4) years4 1 of
        None \<Rightarrow> None
      | Some (Inl e) \<Rightarrow> Some (Inl e)
      | Some (Inr level) \<Rightarrow>
          Some (Inr \<lparr>minPoolSize = 0, maxPoolSize = 0, pool = [],
                     beginT = now, precision = prec_cast,
                     slots = replicate 4 [] # replicate (level - 1) (replicate 64 []),
                     points = replicate level 0,
                     lastT = now, heap = mem, brk = 0, fired = []\<rparr>))"

text \<open>\<^verbatim>\<open>SetPoolSize\<close>, lines 124 to 129.\<close>

definition SetPoolSize :: "int \<Rightarrow> int \<Rightarrow> 'f Timer \<Rightarrow> 'f Timer" where
  "SetPoolSize mn mx t = t\<lparr>minPoolSize := mn, maxPoolSize := mx\<rparr>"

subsection \<open>ThreadRun\<close>

text \<open>The loop of lines 176 to 179, for the \<open>k\<close> levels above level 0.\<close>

fun destPoints_from :: "nat \<Rightarrow> 64 word \<Rightarrow> int list" where
  "destPoints_from 0 durVal = []"
| "destPoints_from (Suc k) durVal = uint (durVal AND 63) # destPoints_from k (drop_bit 6 durVal)"

text \<open>
  One pass of the loop of \<^verbatim>\<open>ThreadRun\<close>, lines 170 to 179, at the clock reading
  \<open>now\<close>: the pass fills the local vector \<^verbatim>\<open>destPoints\<close>, which is returned beside
  the timer.
\<close>

definition ThreadRun_pass :: "int \<Rightarrow> 'f Timer \<Rightarrow> error + int list \<times> 'f Timer" where
  "ThreadRun_pass now t =
     (if \<not> in_i64 (now - beginT t) then Inl SignedOverflow
      else case ticks_of (now - beginT t) (precision t) of
        Inl e \<Rightarrow> Inl e
      | Inr durVal \<Rightarrow>
          if length (points t) = 0 then Inl OutOfRange
          else Inr (uint (durVal AND 3)
                      # destPoints_from (length (points t) - 1) (drop_bit 2 durVal), t))"

text \<open>
  \<^verbatim>\<open>ThreadRun\<close>, lines 166 to 181, never returns; the model runs the passes of a
  finite sequence of clock readings.
\<close>

fun ThreadRun :: "int list \<Rightarrow> 'f Timer \<Rightarrow> error + 'f Timer" where
  "ThreadRun [] t = Inr t"
| "ThreadRun (now # nows) t =
     (case ThreadRun_pass now t of
        Inl e \<Rightarrow> Inl e
      | Inr (d, t1) \<Rightarrow> ThreadRun nows t1)"

subsection \<open>Histories of a timer\<close>

datatype 'f operation = Start int int 'f | Stop TimerId | FireAt eid | Pass int

fun step :: "'f operation \<Rightarrow> 'f Timer \<Rightarrow> error + 'f Timer" where
  "step (Start now dur c) t = map_sum id snd (StartTimer now dur c t)"
| "step (Stop tid) t = Inr (snd (StopTimer tid t))"
| "step (FireAt x) t = Inr (fire x t)"
| "step (Pass now) t = map_sum id snd (ThreadRun_pass now t)"

fun run :: "'f operation list \<Rightarrow> 'f Timer \<Rightarrow> error + 'f Timer" where
  "run [] t = Inr t"
| "run (a # as) t = (case step a t of Inl e \<Rightarrow> Inl e | Inr t1 \<Rightarrow> run as t1)"

text \<open>The addresses linked into the slots, level by level and slot by slot.\<close>

definition linked :: "'f Timer \<Rightarrow> eid list" where
  "linked t = concat (concat (slots t))"

text \<open>
  The shape the constructor gives a timer: 4 slots at level 0, 64 at every other,
  one cursor a level, each within its level.
\<close>

definition wheel_ok :: "'f Timer \<Rightarrow> bool" where
  "wheel_ok t =
     (0 < length (slots t) \<and> length (points t) = length (slots t) \<and>
      list_all2 (\<lambda>l w. length w = (if l = 0 then 4 else 64)) [0 ..< length (slots t)] (slots t) \<and>
      list_all2 (\<lambda>p w. 0 \<le> p \<and> p < int (length w)) (points t) (slots t))"

text \<open>
  The invariant of the histories: no address is linked twice, the linked and the
  pooled addresses are allocated, a pooled address is pooled once and not linked,
  and the slot pointer of every allocated entry is null.
\<close>

definition timer_inv :: "'f Timer \<Rightarrow> bool" where
  "timer_inv t =
     (distinct (linked t) \<and> (\<forall>x \<in> set (linked t). x < brk t) \<and>
      distinct (pool t) \<and> (\<forall>x \<in> set (pool t). x < brk t \<and> x \<notin> set (linked t)) \<and>
      (\<forall>x < brk t. slot (heap t x) = None))"

subsection \<open>The placement in the words of the specification\<close>

text \<open>
  Section 4.2 of the specification on the integer \<open>floor ((now + dur - epoch) /
  precision)\<close>: one 2-bit digit, then 6-bit digits, up to the level of the most
  significant nonzero digit or the last level.
\<close>

function spec_climb :: "nat \<Rightarrow> nat \<Rightarrow> int \<Rightarrow> nat \<times> int" where
  "spec_climb n level rest =
     (if drop_bit 6 rest \<noteq> 0 \<and> level + 1 < n
      then spec_climb n (level + 1) (drop_bit 6 rest)
      else (level, rest AND 63))"
  by pat_completeness auto
termination
  by (relation "measure (\<lambda>(n, level, rest). n - level)") auto

declare spec_climb.simps [simp del]

definition spec_slot :: "int \<Rightarrow> int \<Rightarrow> 'f Timer \<Rightarrow> slot_ref" where
  "spec_slot now dur t =
     (let ticks = (now + dur - beginT t) div precision t;
          digit0 = ticks AND 3;
          rest = drop_bit 2 ticks
      in if rest = 0 then (0, nat ((points t ! 0 + digit0) mod 4))
         else (case spec_climb (length (slots t)) 1 rest of
                 (level, digit) \<Rightarrow> (level, nat ((points t ! level + digit) mod 64))))"

text \<open>
  The clamp of section 4.2 of the specification: a negative duration is armed as
  one tick.
\<close>

definition spec_clamp :: "int \<Rightarrow> 'f Timer \<Rightarrow> int" where
  "spec_clamp dur t = (if dur < 0 then precision t else dur)"

subsection \<open>A timer of millisecond precision\<close>

text \<open>
  The clock counts nanoseconds; four years of 365.2425 days are
  \<open>126227808000000000\<close> nanoseconds. The timer is the one the constructor builds
  for a precision of \<open>1000000\<close> nanoseconds held in 64 bits.
\<close>

definition mem0 :: "eid \<Rightarrow> string Element" where
  "mem0 = (\<lambda>x. \<lparr>cb = [], active = False, slot = None\<rparr>)"

definition wheel_ms :: "string Timer" where
  "wheel_ms =
     \<lparr>minPoolSize = 0, maxPoolSize = 0, pool = [],
      beginT = 0, precision = 1000000,
      slots = replicate 4 [] # replicate 6 (replicate 64 []),
      points = replicate 7 0,
      lastT = 0, heap = mem0, brk = 0, fired = []\<rparr>"

text \<open>
  A timer whose precision is two years, counted in years (in a 32-bit \<^verbatim>\<open>int\<close>) by
  the constructor and in nanoseconds by the clock: it has one level.
\<close>

definition wheel_2y :: "string Timer" where
  "wheel_2y =
     \<lparr>minPoolSize = 0, maxPoolSize = 0, pool = [],
      beginT = 0, precision = 63113904000000000,
      slots = [replicate 4 []],
      points = [0],
      lastT = 0, heap = mem0, brk = 0, fired = []\<rparr>"

text \<open>The timer after \<^verbatim>\<open>StartTimer\<close> of one millisecond at clock reading 0.\<close>

definition armed_ms :: "string Timer" where
  "armed_ms =
     (case StartTimer 0 1000000 ''tick'' wheel_ms of
        Inr (tid, t) \<Rightarrow> t
      | Inl e \<Rightarrow> wheel_ms)"

text \<open>
  The same timer with the slot pointer of its entry set to the slot that holds the
  entry, as an insertion that records the slot would leave it.
\<close>

definition linked_ms :: "string Timer" where
  "linked_ms = armed_ms\<lparr>heap := (heap armed_ms)(0 := (heap armed_ms 0)\<lparr>slot := Some (0, 1)\<rparr>)\<rparr>"

text \<open>A history of the millisecond timer: two arms, a cancel, a fire attempt, a pass.\<close>

definition history_ms :: "string operation list" where
  "history_ms =
     [Start 0 1000000 ''a'', Start 0 10000000000 ''b'',
      Stop \<lparr>elem = Some 0, timer = True\<rparr>, FireAt 1, Pass 2000000]"

section \<open>The gate of an entry\<close>

lemma init_active: "active (init c e) = active e"
  by (simp add: init_def try_lock_def unlock_def Let_def)

lemma init_slot: "slot (init c e) = None"
  by (simp add: init_def try_lock_def unlock_def Let_def)

lemma init_cb: "cb (init c e) = c"
  by (simp add: init_def try_lock_def unlock_def Let_def)

lemma held_update: "active e \<Longrightarrow> e\<lparr>active := True\<rparr> = e"
  by (cases e) simp

lemma call_open:
  "\<not> active e \<Longrightarrow>
   call e = (e\<lparr>active := False, slot := None\<rparr>, [e\<lparr>active := True, slot := None\<rparr>])"
  by (simp add: call_def try_lock_def unlock_def Let_def)

lemma call_held: "active e \<Longrightarrow> call e = (e, [])"
  by (simp add: call_def try_lock_def held_update)

lemma fire_held: "active (heap t x) \<Longrightarrow> fire x t = t"
  by (simp add: fire_def call_held)

lemma cancel_held: "active (heap t x) \<Longrightarrow> cancel x t = (False, t)"
  by (simp add: cancel_def try_lock_def held_update)

text \<open>Once the gate is held, no attempt changes the timer and every cancel fails.\<close>

lemma attempts_held:
  "active (heap t x) \<Longrightarrow> attempts x as t = (replicate (count_list as Cancel) False, t)"
proof (induction as)
  case Nil
  then show ?case by simp
next
  case (Cons a as)
  then show ?case by (cases a) (simp_all add: fire_held cancel_held)
qed

lemma fire_open:
  "\<not> active (heap t x) \<Longrightarrow>
   fire x t = t\<lparr>heap := (heap t)(x := (heap t x)\<lparr>active := False, slot := None\<rparr>),
               fired := fired t @ [(x, (heap t x)\<lparr>active := True, slot := None\<rparr>)]\<rparr>"
  by (simp add: fire_def call_open)

lemma cancel_open:
  "\<not> active (heap t x) \<Longrightarrow>
   cancel x t = (True, (case slot (heap t x) of
        None \<Rightarrow> t\<lparr>heap := (heap t)(x := (heap t x)\<lparr>active := True\<rparr>)\<rparr>
      | Some r \<Rightarrow> t\<lparr>heap := (heap t)(x := (heap t x)\<lparr>active := True\<rparr>),
                    slots := at_slot r (erase x) (slots t)\<rparr>))"
  by (simp add: cancel_def try_lock_def Let_def split: option.splits)

lemma cancel_open_facts:
  assumes "\<not> active (heap t x)"
  shows "fst (cancel x t)" and "active (heap (snd (cancel x t)) x)"
    and "fired (snd (cancel x t)) = fired t"
  using assms by (simp_all add: cancel_open split: option.splits)

text \<open>
  Claim C1, as the code has it. Take an entry whose gate is open after \<open>init\<close> and
  any sequence of fire and cancel attempts on it. The callback runs once for each
  fire attempt made before the first cancel attempt and never after it, each
  time on the entry with the gate held and the slot pointer null; the first
  cancel attempt returns true and every later one false; and the gate is held at
  the end exactly when a cancel attempt was made. A fire attempt that acquires
  the gate opens it again when it returns.
\<close>

theorem gate_protocol:
  assumes "\<not> active (heap t x)"
  shows "fired (snd (attempts x as t)) =
           fired t @ replicate (length (takeWhile (\<lambda>a. a = Fire) as))
                       (x, (heap t x)\<lparr>active := True, slot := None\<rparr>)
         \<and> fst (attempts x as t) =
             (if Cancel \<in> set as then True # replicate (count_list as Cancel - 1) False else [])
         \<and> active (heap (snd (attempts x as t)) x) = (Cancel \<in> set as)"
  using assms
proof (induction as arbitrary: t)
  case Nil
  then show ?case by simp
next
  case (Cons a as)
  show ?case
  proof (cases a)
    case Fire
    let ?t1 = "fire x t"
    have o: "\<not> active (heap ?t1 x)"
      using Cons.prems by (simp add: fire_open)
    have h: "(heap ?t1 x)\<lparr>active := True, slot := None\<rparr>
               = (heap t x)\<lparr>active := True, slot := None\<rparr>"
      using Cons.prems by (simp add: fire_open)
    have f: "fired ?t1 = fired t @ [(x, (heap t x)\<lparr>active := True, slot := None\<rparr>)]"
      using Cons.prems by (simp add: fire_open)
    from Cons.IH [OF o] show ?thesis
      unfolding h f using Fire by (simp add: replicate_app_Cons_same)
  next
    case Cancel
    obtain r t1 where c: "cancel x t = (r, t1)"
      by (cases "cancel x t")
    from cancel_open_facts [OF Cons.prems] c
    have r: "r" and a: "active (heap t1 x)" and f: "fired t1 = fired t"
      by simp_all
    show ?thesis
      using Cancel c r f a attempts_held [OF a, of as] by simp
  qed
qed

theorem gate_protocol_witness:
  "\<not> active (heap armed_ms 0)
   \<and> fst (attempts 0 [Fire, Cancel, Fire, Cancel] armed_ms) = [True, False]
   \<and> map fst (fired (snd (attempts 0 [Fire, Cancel, Fire, Cancel] armed_ms))) = [0]"
proof -
  have h: "\<not> active (heap armed_ms 0)"
    by code_simp
  have f: "fired armed_ms = []"
    by code_simp
  from gate_protocol [OF h, of "[Fire, Cancel, Fire, Cancel]"] h f show ?thesis
    by simp
qed

text \<open>
  Claim C1, as stated, fails on the armed entry at address 0: two fire attempts
  run the callback twice, the gate is open again after a fire attempt, and a
  cancel attempt after a fire attempt returns true although the callback has run.
\<close>

theorem gate_reopens_counterexample:
  "map fst (fired (snd (attempts 0 [Fire, Fire] armed_ms))) = [0, 0]
   \<and> active (heap (snd (attempts 0 [Fire] armed_ms)) 0) = False
   \<and> fst (attempts 0 [Fire, Cancel] armed_ms) = [True]
   \<and> map fst (fired (snd (attempts 0 [Fire, Cancel] armed_ms))) = [0]"
  by code_simp

text \<open>
  Claim C5 at an entry whose previous arming was cancelled: \<open>init\<close> stores the new
  callback and clears the slot pointer, and the gate is still held.
\<close>

theorem init_keeps_held_gate:
  "active (heap (snd (cancel 0 armed_ms)) 0)
   \<and> active (init ''next'' (heap (snd (cancel 0 armed_ms)) 0))
   \<and> slot (init ''next'' (heap (snd (cancel 0 armed_ms)) 0)) = None
   \<and> cb (init ''next'' (heap (snd (cancel 0 armed_ms)) 0)) = ''next''"
  by code_simp

text \<open>
  Claim C10. A \<open>call\<close> that acquires the gate sets the slot pointer of the entry to
  null and then runs the callback once, on the entry with the slot pointer null
  and the gate held; the entry it leaves has the slot pointer null and the gate
  open. A \<open>call\<close> that finds the gate held runs nothing and leaves the entry, and
  so its slot pointer, as it was.
\<close>

theorem call_unlinks_before_callback:
  "(\<not> active e \<longrightarrow>
      call e = (e\<lparr>active := False, slot := None\<rparr>, [e\<lparr>active := True, slot := None\<rparr>]))
   \<and> (active e \<longrightarrow> call e = (e, []))"
  by (simp add: call_open call_held)

theorem call_unlinks_before_callback_witness:
  "\<not> active \<lparr>cb = ''tick'', active = False, slot = Some (1, 2)\<rparr>
   \<and> call \<lparr>cb = ''tick'', active = False, slot = Some (1, 2)\<rparr>
       = (\<lparr>cb = ''tick'', active = False, slot = None\<rparr>,
          [\<lparr>cb = ''tick'', active = True, slot = None\<rparr>])
   \<and> active \<lparr>cb = ''tick'', active = True, slot = Some (1, 2)\<rparr>
   \<and> call \<lparr>cb = ''tick'', active = True, slot = Some (1, 2)\<rparr>
       = (\<lparr>cb = ''tick'', active = True, slot = Some (1, 2)\<rparr>, [])"
  using call_unlinks_before_callback [of "\<lparr>cb = ''tick'', active = False, slot = Some (1, 2)\<rparr>"]
    call_unlinks_before_callback [of "\<lparr>cb = ''tick'', active = True, slot = Some (1, 2)\<rparr>"]
  by simp

section \<open>Cancellation\<close>

lemma at_slot_erase_not_member:
  "l < length ss \<Longrightarrow> i < length (ss ! l) \<Longrightarrow> x \<notin> set (at_slot (l, i) (erase x) ss ! l ! i)"
  by (simp add: at_slot_def erase_def)

lemma StopTimer_empty: "\<not> TimerId_bool tid \<Longrightarrow> StopTimer tid t = (True, t)"
  by (simp add: StopTimer_def Timer_StopTimer_def)

lemma StopTimer_cancel:
  "TimerId_bool tid \<Longrightarrow> elem tid = Some x \<Longrightarrow> StopTimer tid t = cancel x t"
  by (simp add: StopTimer_def Timer_StopTimer_def TimerId_bool_def)

section \<open>Construction of the wheel\<close>





lemma ctor_wheel_ms:
  "Timer_ctor 64 0 1000000 1000000 126227808000000000 mem0 = Some (Inr wheel_ms)"
proof -
  have "level_loop 64 (1000000 * 4) 126227808000000000 1 = Some (Inr 7)"
    by code_simp
  moreover have "in_rep 64 (1000000 * 4)"
    by (simp add: in_rep_def)
  ultimately show ?thesis
    by (simp add: Timer_ctor_def wheel_ms_def eval_nat_numeral)
qed



section \<open>Placement\<close>

lemma uint_and_3: "uint (w AND 3 :: 64 word) = uint w mod 4"
proof -
  have "(3 :: int) = mask 2" by (simp add: mask_eq_exp_minus_1)
  then have "uint w AND 3 = take_bit 2 (uint w)" by (simp add: take_bit_eq_mask)
  then show ?thesis by (simp add: uint_and take_bit_eq_mod)
qed

lemma uint_and_63: "uint (w AND 63 :: 64 word) = uint w mod 64"
proof -
  have "(63 :: int) = mask 6" by (simp add: mask_eq_exp_minus_1)
  then have "uint w AND 63 = take_bit 6 (uint w)" by (simp add: take_bit_eq_mask)
  then show ?thesis by (simp add: uint_and take_bit_eq_mod)
qed

lemma uint_drop_bit_div: "uint (drop_bit n w :: 64 word) = uint w div 2 ^ n"
proof -
  have "uint (drop_bit n w) = int (unat (drop_bit n w))" by simp
  also have "\<dots> = int (drop_bit n (unat w))" by (simp only: unat_drop_bit_eq)
  also have "\<dots> = int (unat w div 2 ^ n)" by (simp only: drop_bit_eq_div)
  also have "\<dots> = uint w div 2 ^ n" by (simp add: zdiv_int)
  finally show ?thesis .
qed

lemma word_zero_uint: "(w :: 64 word) = 0 \<longleftrightarrow> uint w = 0"
  by (simp add: uint_0_iff)

lemma place_loop_spec:
  "dN = drop_bit 6 d1 \<Longrightarrow> d1 \<noteq> 0 \<Longrightarrow>
   (case place_loop n level d1 dN of (L, d) \<Rightarrow>
      level \<le> L \<and> d = drop_bit (6 * (L - level)) d1 \<and> d \<noteq> 0
      \<and> (L + 1 < n \<longrightarrow> drop_bit 6 d = 0) \<and> (level < n \<longrightarrow> L < n))"
proof (induction n level d1 dN rule: place_loop.induct)
  case (1 n level durVal1 durValN)
  show ?case
  proof (cases "durValN > 0 \<and> level + 1 < n")
    case False
    have "place_loop n level durVal1 durValN = (level, durVal1)"
      by (subst place_loop.simps) (simp only: False if_False)
    moreover have "level + 1 < n \<longrightarrow> drop_bit 6 durVal1 = 0"
      using False "1.prems"(1) by (auto simp: word_greater_zero_iff)
    ultimately show ?thesis using "1.prems" by simp
  next
    case True
    have s: "place_loop n level durVal1 durValN
               = place_loop n (level + 1) durValN (drop_bit 6 durValN)"
      using True by (subst place_loop.simps) simp
    have nz: "durValN \<noteq> 0" using True by (simp add: word_greater_zero_iff)
    obtain L d where r: "place_loop n (level + 1) durValN (drop_bit 6 durValN) = (L, d)"
      by (cases "place_loop n (level + 1) durValN (drop_bit 6 durValN)")
    note "1.IH" [OF True refl nz, unfolded r prod.case]
    then have ih: "level + 1 \<le> L" "d = drop_bit (6 * (L - (level + 1))) durValN" "d \<noteq> 0"
      "L + 1 < n \<longrightarrow> drop_bit 6 d = 0" "level + 1 < n \<longrightarrow> L < n"
      by blast+
    have e: "6 * (L - (level + 1)) + 6 = 6 * (L - level)" using ih(1) by simp
    have "d = drop_bit (6 * (L - level)) durVal1"
      using ih(2) "1.prems"(1) e by (simp add: drop_bit_drop_bit)
    then show ?thesis using s r ih True by simp
  qed
qed

lemma wheel_ok_level:
  assumes "wheel_ok t" and "l < length (slots t)"
  shows "l < length (points t)"
    and "length (slots t ! l) = (if l = 0 then 4 else 64)"
    and "0 \<le> points t ! l" and "points t ! l < int (length (slots t ! l))"
proof -
  from assms(1) have n: "length (points t) = length (slots t)"
    and a: "list_all2 (\<lambda>l w. length w = (if l = 0 then 4 else 64)) [0 ..< length (slots t)] (slots t)"
    and b: "list_all2 (\<lambda>p w. 0 \<le> p \<and> p < int (length w)) (points t) (slots t)"
    by (simp_all add: wheel_ok_def)
  show "l < length (points t)" using n assms(2) by simp
  from list_all2_nthD2 [OF a assms(2)] assms(2)
  show "length (slots t ! l) = (if l = 0 then 4 else 64)" by simp
  from list_all2_nthD2 [OF b assms(2)]
  show "0 \<le> points t ! l" and "points t ! l < int (length (slots t ! l))" by simp_all
qed

lemma pow64: "(2::int) ^ (6 * k) = 64 ^ k"
  by (simp add: power_mult)

lemma slot_of_nonneg:
  assumes ok: "wheel_ok t" and q0: "0 \<le> q" and q1: "q < 2 ^ 63"
    and lv: "2 \<le> length (slots t) \<or> q div 4 = 0"
  shows "\<exists>l i. slot_of (word_of_int q) t = Inr (l, i)
           \<and> l < length (slots t) \<and> i < length (slots t ! l)
           \<and> (q div 4 = 0 \<longrightarrow> l = 0 \<and> int i = (points t ! 0 + q mod 4) mod 4)
           \<and> (q div 4 \<noteq> 0 \<longrightarrow> 1 \<le> l \<and> q div 4 div 64 ^ (l - 1) \<noteq> 0
                \<and> (l + 1 < length (slots t) \<longrightarrow> q div 4 div 64 ^ l = 0)
                \<and> int i = (points t ! l + q div 4 div 64 ^ (l - 1) mod 64) mod 64)"
proof -
  let ?w = "word_of_int q :: 64 word"
  let ?n = "length (slots t)"
  have u: "uint ?w = q"
    using q0 q1 by (simp add: uint_word_of_int)
  have n0: "0 < ?n" using ok by (simp add: wheel_ok_def)
  have idx: "\<And>l off. l < ?n \<Longrightarrow> 0 \<le> off \<Longrightarrow> off < 64 \<Longrightarrow>
      in_i32 (points t ! l + off) \<and> length (slots t ! l) \<noteq> 0
      \<and> int (unat (word_of_int (points t ! l + off) :: 64 word) mod length (slots t ! l))
          = (points t ! l + off) mod int (length (slots t ! l))
      \<and> unat (word_of_int (points t ! l + off) :: 64 word) mod length (slots t ! l)
          < length (slots t ! l)"
  proof -
    fix l off
    assume l: "l < ?n" and o: "0 \<le> off" "off < (64::int)"
    note w = wheel_ok_level [OF ok l]
    define v where "v = points t ! l + off"
    have b: "0 \<le> v" "v < 128"
      using w o unfolding v_def by (auto split: if_splits)
    have "uint (word_of_int v :: 64 word) = v"
      using b by (simp add: uint_word_of_int)
    then have "unat (word_of_int v :: 64 word) = nat v"
      by (simp add: unat_eq_nat_uint)
    then have un: "unat (word_of_int (points t ! l + off) :: 64 word) = nat (points t ! l + off)"
      unfolding v_def .
    note b = b [unfolded v_def]
    have len: "length (slots t ! l) \<noteq> 0" using w by simp
    show "in_i32 (points t ! l + off) \<and> length (slots t ! l) \<noteq> 0
      \<and> int (unat (word_of_int (points t ! l + off) :: 64 word) mod length (slots t ! l))
          = (points t ! l + off) mod int (length (slots t ! l))
      \<and> unat (word_of_int (points t ! l + off) :: 64 word) mod length (slots t ! l)
          < length (slots t ! l)"
      using b len unfolding un by (simp add: in_i32_def zmod_int)
  qed
  show ?thesis
  proof (cases "q div 4 = 0")
    case True
    have z: "drop_bit 2 ?w = 0"
      using True u by (simp add: word_zero_uint uint_drop_bit_div)
    have p: "place ?n ?w = (0, q mod 4)"
      using z u by (simp add: place_def uint_and_3)
    have o: "0 \<le> q mod 4" "q mod 4 < 64"
      by simp_all
    note i = idx [OF n0 o]
    note w = wheel_ok_level [OF ok n0]
    show ?thesis
      using True p i w n0 by (simp add: slot_of_def)
  next
    case False
    then have n2: "2 \<le> ?n" using lv by simp
    define r where "r = drop_bit 2 ?w"
    have ur: "uint r = q div 4"
      using u unfolding r_def by (simp add: uint_drop_bit_div)
    have nz: "r \<noteq> 0"
      using False ur by (simp add: word_zero_uint)
    obtain L d where pl: "place_loop ?n 1 r (drop_bit 6 r) = (L, d)"
      by (cases "place_loop ?n 1 r (drop_bit 6 r)")
    note place_loop_spec [OF refl nz, where n = ?n and level = 1, unfolded pl prod.case]
    then have ih: "1 \<le> L" "d = drop_bit (6 * (L - 1)) r" "d \<noteq> 0"
      "L + 1 < ?n \<longrightarrow> drop_bit 6 d = 0" "L < ?n"
      using n2 by auto
    have ud: "uint d = q div 4 div 64 ^ (L - 1)"
      unfolding ih(2) by (simp only: uint_drop_bit_div pow64 ur)
    have dn: "q div 4 div 64 ^ (L - 1) \<noteq> 0"
      using ih(3) ud by (simp add: word_zero_uint)
    have e: "(64::int) ^ (L - 1) * 64 = 64 ^ L"
      using ih(1) by (cases L) simp_all
    have "uint (drop_bit 6 d) = q div 4 div 64 ^ (L - 1) div 64"
      by (simp only: uint_drop_bit_div ud) simp
    also have "\<dots> = q div 4 div 64 ^ L"
      by (simp only: zdiv_zmult2_eq [symmetric] e)
    finally have "uint (drop_bit 6 d) = q div 4 div 64 ^ L" .
    then have top: "L + 1 < ?n \<longrightarrow> q div 4 div 64 ^ L = 0"
      using ih(4) by (auto simp: word_zero_uint)
    have "place ?n ?w = (L, uint (d AND 63))"
      using nz pl unfolding place_def Let_def r_def [symmetric] by simp
    then have p: "place ?n ?w = (L, q div 4 div 64 ^ (L - 1) mod 64)"
      by (simp only: uint_and_63 ud)
    have o: "0 \<le> q div 4 div 64 ^ (L - 1) mod 64" "q div 4 div 64 ^ (L - 1) mod 64 < 64"
      by simp_all
    note i = idx [OF ih(5) o]
    note w = wheel_ok_level [OF ok ih(5)]
    have l64: "length (slots t ! L) = 64" using w ih(1) by simp
    show ?thesis
      using False p i w ih(1) ih(5) dn top l64 by (simp add: slot_of_def)
  qed
qed

lemma sdiv_nonneg: "0 \<le> a \<Longrightarrow> 0 < b \<Longrightarrow> a sdiv b = (a::int) div b"
  by (simp add: signed_divide_int_def sgn_if)

lemma ticks_of_nonneg:
  assumes "0 \<le> n" and "in_i64 n" and "0 < p"
  shows "ticks_of n p = Inr (word_of_int (n div p))" and "0 \<le> n div p" and "n div p < 2 ^ 63"
proof -
  show a: "0 \<le> n div p" using assms by (simp add: pos_imp_zdiv_nonneg_iff)
  have "n div p \<le> n div 1" using assms by (intro zdiv_mono2) simp_all
  then have "n div p \<le> n" by simp
  then show b: "n div p < 2 ^ 63" using assms(2) by (simp add: in_i64_def)
  show "ticks_of n p = Inr (word_of_int (n div p))"
    using a b assms by (simp add: ticks_of_def sdiv_nonneg in_i64_def)
qed

lemma NewElement_fields:
  "slots (snd (NewElement t)) = slots t" "points (snd (NewElement t)) = points t"
  "beginT (snd (NewElement t)) = beginT t" "precision (snd (NewElement t)) = precision t"
  "fired (snd (NewElement t)) = fired t" "lastT (snd (NewElement t)) = lastT t"
  by (simp_all add: NewElement_def split: list.splits)

lemma slot_of_cong:
  assumes "slots t' = slots t" and "points t' = points t"
  shows "slot_of w t' = slot_of w t"
  unfolding slot_of_def assms by (rule refl)

lemma StartTimer_slot_cong:
  assumes "slots t' = slots t" and "points t' = points t" and "beginT t' = beginT t"
    and "precision t' = precision t"
  shows "StartTimer_slot now dur t' = StartTimer_slot now dur t"
  unfolding StartTimer_slot_def slot_of_def assms by (rule refl)

lemma StartTimer_unfold:
  "StartTimer now dur c t =
     (case StartTimer_slot now dur t of
        Inl e \<Rightarrow> Inl e
      | Inr r \<Rightarrow>
          Inr (\<lparr>elem = Some (fst (NewElement t)), timer = True\<rparr>,
               (snd (NewElement t))
                 \<lparr>heap := (heap (snd (NewElement t)))
                    (fst (NewElement t) := init c (heap (snd (NewElement t)) (fst (NewElement t)))),
                  slots := at_slot r (push (fst (NewElement t))) (slots t)\<rparr>))"
proof -
  obtain x t1 where n: "NewElement t = (x, t1)" by (cases "NewElement t")
  have f: "slots t1 = slots t" "points t1 = points t" "beginT t1 = beginT t"
    "precision t1 = precision t"
    using NewElement_fields [of t] n by simp_all
  have "StartTimer_slot now dur (t1\<lparr>heap := (heap t1)(x := init c (heap t1 x))\<rparr>)
          = StartTimer_slot now dur t"
    by (rule StartTimer_slot_cong) (simp_all add: f)
  then show ?thesis
    by (simp add: StartTimer_def n Let_def f split: sum.splits)
qed

text \<open>
  Claim C3, as the code has it. Take a timer of the constructor's shape and a
  duration with \<open>now + dur\<close> not before the epoch, and let \<open>ticks\<close> be \<open>floor ((now +
  dur - epoch) / precision)\<close> and \<open>rest\<close> be \<open>ticks\<close> shifted right by 2. When the timer
  has at least two levels or \<open>rest\<close> is 0, \<open>StartTimer\<close> links the new entry at the
  tail of exactly one slot and leaves every other slot as it was: the slot is at
  level 0, index \<open>(cursor + ticks mod 4) mod 4\<close>, when \<open>rest\<close> is 0; otherwise it is
  at the level \<open>l \<ge> 1\<close> of the most significant nonzero 6-bit digit of \<open>rest\<close>, or at
  the last level when that digit lies beyond it, index \<open>(cursor + digit) mod 64\<close>
  for the digit \<open>rest div 64 ^ (l - 1) mod 64\<close>.
\<close>

theorem StartTimer_placement:
  assumes "wheel_ok t" and "0 < precision t" and "beginT t \<le> now + dur"
    and "in_i64 (now + dur)" and "in_i64 (now + dur - beginT t)"
    and "2 \<le> length (slots t) \<or> (now + dur - beginT t) div precision t div 4 = 0"
  shows "\<exists>t' l i.
           StartTimer now dur c t = Inr (\<lparr>elem = Some (fst (NewElement t)), timer = True\<rparr>, t')
           \<and> l < length (slots t) \<and> i < length (slots t ! l)
           \<and> slots t' = (slots t)[l := (slots t ! l)[i := slots t ! l ! i @ [fst (NewElement t)]]]
           \<and> (let ticks = (now + dur - beginT t) div precision t; rest = ticks div 4
              in (rest = 0 \<longrightarrow> l = 0 \<and> int i = (points t ! 0 + ticks mod 4) mod 4)
               \<and> (rest \<noteq> 0 \<longrightarrow>
                    1 \<le> l \<and> rest div 64 ^ (l - 1) \<noteq> 0
                    \<and> (l + 1 < length (slots t) \<longrightarrow> rest div 64 ^ l = 0)
                    \<and> int i = (points t ! l + rest div 64 ^ (l - 1) mod 64) mod 64))"
proof -
  let ?q = "(now + dur - beginT t) div precision t"
  have n0: "0 \<le> now + dur - beginT t" using assms(3) by simp
  note tk = ticks_of_nonneg [OF n0 assms(5) assms(2)]
  from slot_of_nonneg [OF assms(1) tk(2) tk(3) assms(6)]
  obtain l i where s: "slot_of (word_of_int ?q) t = Inr (l, i)"
    and b: "l < length (slots t)" "i < length (slots t ! l)"
    and z: "?q div 4 = 0 \<longrightarrow> l = 0 \<and> int i = (points t ! 0 + ?q mod 4) mod 4"
    and nz: "?q div 4 \<noteq> 0 \<longrightarrow> 1 \<le> l \<and> ?q div 4 div 64 ^ (l - 1) \<noteq> 0
                \<and> (l + 1 < length (slots t) \<longrightarrow> ?q div 4 div 64 ^ l = 0)
                \<and> int i = (points t ! l + ?q div 4 div 64 ^ (l - 1) mod 64) mod 64"
    by blast
  have ss: "StartTimer_slot now dur t = Inr (l, i)"
    using assms(4,5) tk(1) s by (simp add: StartTimer_slot_def)
  have a: "at_slot (l, i) (push (fst (NewElement t))) (slots t)
             = (slots t)[l := (slots t ! l)[i := slots t ! l ! i @ [fst (NewElement t)]]]"
    using b by (simp add: at_slot_def push_def)
  have st: "StartTimer now dur c t =
      Inr (\<lparr>elem = Some (fst (NewElement t)), timer = True\<rparr>,
           (snd (NewElement t))
             \<lparr>heap := (heap (snd (NewElement t)))
                (fst (NewElement t) := init c (heap (snd (NewElement t)) (fst (NewElement t)))),
              slots := (slots t)[l := (slots t ! l)[i := slots t ! l ! i @ [fst (NewElement t)]]]\<rparr>)"
    unfolding StartTimer_unfold ss a [symmetric] by simp
  show ?thesis
    unfolding Let_def
    by (rule exI, rule exI [of _ l], rule exI [of _ i], intro conjI, rule st)
       (use b z nz in simp_all)
qed

theorem StartTimer_placement_witness:
  "wheel_ok wheel_ms \<and> 0 < precision wheel_ms \<and> beginT wheel_ms \<le> 0 + 10000000000
   \<and> in_i64 (0 + 10000000000) \<and> in_i64 (0 + 10000000000 - beginT wheel_ms)
   \<and> 2 \<le> length (slots wheel_ms)
   \<and> (\<exists>t' l i.
         StartTimer 0 10000000000 ''tick'' wheel_ms
           = Inr (\<lparr>elem = Some (fst (NewElement wheel_ms)), timer = True\<rparr>, t')
         \<and> l < length (slots wheel_ms) \<and> i < length (slots wheel_ms ! l)
         \<and> slots t' = (slots wheel_ms)
               [l := (slots wheel_ms ! l)[i := slots wheel_ms ! l ! i @ [fst (NewElement wheel_ms)]]]
         \<and> 1 \<le> l \<and> (2500::int) div 64 ^ (l - 1) \<noteq> 0
         \<and> (l + 1 < length (slots wheel_ms) \<longrightarrow> (2500::int) div 64 ^ l = 0)
         \<and> int i = (points wheel_ms ! l + 2500 div 64 ^ (l - 1) mod 64) mod 64)
   \<and> StartTimer_slot 0 10000000000 wheel_ms = Inr (2, 39)"
proof -
  have 1: "wheel_ok wheel_ms" by code_simp
  have 2: "0 < precision wheel_ms" by code_simp
  have 3: "beginT wheel_ms \<le> 0 + 10000000000" by code_simp
  have 4: "in_i64 (0 + 10000000000)" by code_simp
  have 5: "in_i64 (0 + 10000000000 - beginT wheel_ms)" by code_simp
  have 6: "2 \<le> length (slots wheel_ms)" by code_simp
  have 7: "StartTimer_slot 0 10000000000 wheel_ms = Inr (2, 39)" by code_simp
  have q: "(0 + 10000000000 - beginT wheel_ms) div precision wheel_ms = 10000"
    by code_simp
  from StartTimer_placement [OF 1 2 3 4 5 disjI1, OF 6, of "''tick''"]
  have "\<exists>t' l i.
         StartTimer 0 10000000000 ''tick'' wheel_ms
           = Inr (\<lparr>elem = Some (fst (NewElement wheel_ms)), timer = True\<rparr>, t')
         \<and> l < length (slots wheel_ms) \<and> i < length (slots wheel_ms ! l)
         \<and> slots t' = (slots wheel_ms)
               [l := (slots wheel_ms ! l)[i := slots wheel_ms ! l ! i @ [fst (NewElement wheel_ms)]]]
         \<and> 1 \<le> l \<and> (2500::int) div 64 ^ (l - 1) \<noteq> 0
         \<and> (l + 1 < length (slots wheel_ms) \<longrightarrow> (2500::int) div 64 ^ l = 0)
         \<and> int i = (points wheel_ms ! l + 2500 div 64 ^ (l - 1) mod 64) mod 64"
    unfolding q Let_def by simp
  then show ?thesis using 1 2 3 4 5 6 7 by blast
qed

text \<open>
  On a timer of one level a tick count of 4 or more takes the branch that
  increments \<open>level\<close> before the loop tests it against the number of levels, and
  the slot is looked up beyond \<open>slots\<close>.
\<close>

lemma one_level_wheel_out_of_range:
  "Timer_ctor 32 0 2 63113904000000000 4 mem0 = Some (Inr wheel_2y)
   \<and> StartTimer_slot 0 315569520000000000 wheel_2y = Inl OutOfRange"
proof -
  have "level_loop 32 (2 * 4) 4 1 = Some (Inr 1)"
    by code_simp
  then have "Timer_ctor 32 0 2 63113904000000000 4 mem0 = Some (Inr wheel_2y)"
    by (simp add: Timer_ctor_def wheel_2y_def in_rep_def)
  moreover have "StartTimer_slot 0 315569520000000000 wheel_2y = Inl OutOfRange"
    by code_simp
  ultimately show ?thesis by blast
qed

text \<open>
  Claim C3, as stated, fails for a duration that reaches before the epoch: at clock
  reading 500 and duration \<open>- 1000\<close> the quotient of the source truncates to 0 and
  the entry goes to level 0, slot 0, whereas the floor is \<open>- 1\<close>, whose digits
  never reach zero and place it at the last level, slot 63.
\<close>

theorem StartTimer_floor_counterexample:
  "StartTimer_slot 500 (- 1000) wheel_ms = Inr (0, 0)
   \<and> spec_slot 500 (- 1000) wheel_ms = (6, 63)"
  by code_simp

lemma ticks_of_pos:
  assumes "0 < p" and "in_i64 n"
  shows "ticks_of n p = Inr (word_of_int (n sdiv p))"
proof -
  have "in_i64 (n sdiv p)"
  proof (cases "0 \<le> n")
    case True
    from ticks_of_nonneg(2,3) [OF True assms(2) assms(1)] show ?thesis
      using True assms(1) by (simp add: sdiv_nonneg in_i64_def)
  next
    case False
    then have e: "n sdiv p = - ((- n) div p)"
      using assms(1) by (simp add: signed_divide_int_def sgn_if)
    have "0 \<le> (- n) div p"
      using False assms(1) by (simp add: pos_imp_zdiv_nonneg_iff)
    moreover have "(- n) div p \<le> (- n) div 1"
      using False assms(1) by (intro zdiv_mono2) simp_all
    ultimately show ?thesis
      using assms(2) unfolding e by (simp add: in_i64_def)
  qed
  then show ?thesis
    using assms(1) by (simp add: ticks_of_def)
qed

text \<open>
  Claim C8, as the code has it. For every negative duration (the precision
  positive, \<open>now + dur\<close> and \<open>now + dur - epoch\<close> within 64 bits) \<open>StartTimer\<close> applies
  no clamp: the slot it pushes the entry into is the slot of the tick count \<open>(now +
  dur - epoch) / precision\<close>, truncated towards zero and converted to 64 unsigned
  bits, as for any other duration and also when \<open>now + dur\<close> is before the epoch.
  When \<open>now + dur\<close> is not before the epoch, that tick count is the floor of the
  quotient and is not after the current tick, whereas the clamped duration is
  placed by the tick after the current one.
\<close>

theorem negative_duration_unclamped:
  assumes "dur < 0" and "0 < precision t"
    and "in_i64 (now + dur)" and "in_i64 (now + dur - beginT t)"
  shows "StartTimer_slot now dur t
           = slot_of (word_of_int ((now + dur - beginT t) sdiv precision t)) t
         \<and> StartTimer now dur c t =
             (case slot_of (word_of_int ((now + dur - beginT t) sdiv precision t)) t of
                Inl e \<Rightarrow> Inl e
              | Inr r \<Rightarrow>
                  Inr (\<lparr>elem = Some (fst (NewElement t)), timer = True\<rparr>,
                       (snd (NewElement t))
                         \<lparr>heap := (heap (snd (NewElement t)))
                            (fst (NewElement t) :=
                               init c (heap (snd (NewElement t)) (fst (NewElement t)))),
                          slots := at_slot r (push (fst (NewElement t))) (slots t)\<rparr>))
         \<and> (beginT t \<le> now + dur \<longrightarrow>
               (now + dur - beginT t) sdiv precision t = (now + dur - beginT t) div precision t
               \<and> (now + dur - beginT t) div precision t < (now - beginT t) div precision t + 1)
         \<and> (beginT t \<le> now \<and> in_i64 (now + precision t)
              \<and> in_i64 (now + precision t - beginT t) \<longrightarrow>
               StartTimer_slot now (spec_clamp dur t) t
                 = slot_of (word_of_int ((now - beginT t) div precision t + 1)) t)"
proof (intro conjI impI)
  show s: "StartTimer_slot now dur t
           = slot_of (word_of_int ((now + dur - beginT t) sdiv precision t)) t"
    using assms(3,4) ticks_of_pos [OF assms(2) assms(4)] by (simp add: StartTimer_slot_def)
  show "StartTimer now dur c t =
             (case slot_of (word_of_int ((now + dur - beginT t) sdiv precision t)) t of
                Inl e \<Rightarrow> Inl e
              | Inr r \<Rightarrow>
                  Inr (\<lparr>elem = Some (fst (NewElement t)), timer = True\<rparr>,
                       (snd (NewElement t))
                         \<lparr>heap := (heap (snd (NewElement t)))
                            (fst (NewElement t) :=
                               init c (heap (snd (NewElement t)) (fst (NewElement t)))),
                          slots := at_slot r (push (fst (NewElement t))) (slots t)\<rparr>))"
    unfolding StartTimer_unfold s by (rule refl)
next
  assume b: "beginT t \<le> now + dur"
  then have n0: "0 \<le> now + dur - beginT t" by simp
  show "(now + dur - beginT t) sdiv precision t = (now + dur - beginT t) div precision t"
    using n0 assms(2) by (rule sdiv_nonneg)
  have "(now + dur - beginT t) div precision t \<le> (now - beginT t) div precision t"
    using assms(1,2) by (intro zdiv_mono1) simp_all
  then show "(now + dur - beginT t) div precision t < (now - beginT t) div precision t + 1"
    by simp
next
  assume h: "beginT t \<le> now \<and> in_i64 (now + precision t)
              \<and> in_i64 (now + precision t - beginT t)"
  then have n1: "0 \<le> now + precision t - beginT t" using assms(2) by simp
  from h have i: "in_i64 (now + precision t)" "in_i64 (now + precision t - beginT t)"
    by simp_all
  note b = ticks_of_nonneg [OF n1 i(2) assms(2)]
  have e: "(now + precision t - beginT t) div precision t = (now - beginT t) div precision t + 1"
  proof -
    have r: "now + precision t - beginT t = (now - beginT t) + precision t" by simp
    show ?thesis
      unfolding r using assms(2) by (subst div_add_self2) simp_all
  qed
  show "StartTimer_slot now (spec_clamp dur t) t
           = slot_of (word_of_int ((now - beginT t) div precision t + 1)) t"
    using assms(1) i b(1) unfolding e by (simp add: StartTimer_slot_def spec_clamp_def)
qed

theorem negative_duration_unclamped_witness:
  "(- 3000000 :: int) < 0 \<and> 0 < precision wheel_ms
   \<and> in_i64 (1000000 + (- 3000000)) \<and> in_i64 (1000000 + (- 3000000) - beginT wheel_ms)
   \<and> StartTimer_slot 1000000 (- 3000000) wheel_ms = Inr (6, 63)
   \<and> (- 5000000 :: int) < 0
   \<and> in_i64 (10000000 + (- 5000000)) \<and> in_i64 (10000000 + (- 5000000) - beginT wheel_ms)
   \<and> beginT wheel_ms \<le> 10000000 + (- 5000000)
   \<and> beginT wheel_ms \<le> 10000000 \<and> in_i64 (10000000 + precision wheel_ms)
   \<and> in_i64 (10000000 + precision wheel_ms - beginT wheel_ms)
   \<and> StartTimer_slot 10000000 (- 5000000) wheel_ms = Inr (1, 1)
   \<and> (10000000 + (- 5000000) - beginT wheel_ms) div precision wheel_ms
       < (10000000 - beginT wheel_ms) div precision wheel_ms + 1
   \<and> StartTimer_slot 10000000 (spec_clamp (- 5000000) wheel_ms) wheel_ms = Inr (1, 2)"
proof -
  have 1: "(- 3000000 :: int) < 0" by simp
  have 2: "0 < precision wheel_ms" by code_simp
  have 3: "in_i64 (1000000 + (- 3000000))" by code_simp
  have 4: "in_i64 (1000000 + (- 3000000) - beginT wheel_ms)" by code_simp
  have 5: "slot_of (word_of_int ((1000000 + (- 3000000) - beginT wheel_ms) sdiv precision wheel_ms))
             wheel_ms = Inr (6, 63)" by code_simp
  from negative_duration_unclamped [OF 1 2 3 4, of "''tick''"] 5
  have a: "StartTimer_slot 1000000 (- 3000000) wheel_ms = Inr (6, 63)" by simp
  have 6: "(- 5000000 :: int) < 0" by simp
  have 7: "in_i64 (10000000 + (- 5000000))" by code_simp
  have 8: "in_i64 (10000000 + (- 5000000) - beginT wheel_ms)" by code_simp
  have 9: "beginT wheel_ms \<le> 10000000 + (- 5000000)" by code_simp
  have 10: "beginT wheel_ms \<le> 10000000 \<and> in_i64 (10000000 + precision wheel_ms)
            \<and> in_i64 (10000000 + precision wheel_ms - beginT wheel_ms)" by code_simp
  have 11: "slot_of (word_of_int ((10000000 + (- 5000000) - beginT wheel_ms) sdiv precision wheel_ms))
              wheel_ms = Inr (1, 1)" by code_simp
  have 12: "slot_of (word_of_int ((10000000 - beginT wheel_ms) div precision wheel_ms + 1))
              wheel_ms = Inr (1, 2)" by code_simp
  note n = negative_duration_unclamped [OF 6 2 7 8, of "''tick''"]
  from n 11 have b: "StartTimer_slot 10000000 (- 5000000) wheel_ms = Inr (1, 1)" by simp
  from n 9 have c: "(10000000 + (- 5000000) - beginT wheel_ms) div precision wheel_ms
       < (10000000 - beginT wheel_ms) div precision wheel_ms + 1" by blast
  from n 10 12
  have d: "StartTimer_slot 10000000 (spec_clamp (- 5000000) wheel_ms) wheel_ms = Inr (1, 2)"
    by simp
  show ?thesis
    using 1 2 3 4 a 6 7 8 9 10 b c d by blast
qed

text \<open>
  Claim C8, as stated, fails at clock reading 10 ms and duration \<open>- 5\<close> ms: the entry
  goes to the slot of tick 5, not to the slot of the next tick, 11.
\<close>

theorem negative_duration_counterexample:
  "StartTimer_slot 10000000 (- 5000000) wheel_ms = Inr (1, 1)
   \<and> StartTimer_slot 10000000 (spec_clamp (- 5000000) wheel_ms) wheel_ms = Inr (1, 2)"
  by code_simp

section \<open>The driver\<close>

lemma ThreadRun_pass_same: "ThreadRun_pass now t = Inr (d, t') \<Longrightarrow> t' = t"
  by (auto simp: ThreadRun_pass_def split: if_splits sum.splits)

lemma ThreadRun_same: "ThreadRun nows t = Inr t' \<Longrightarrow> t' = t"
proof (induction nows arbitrary: t)
  case Nil
  then show ?case by simp
next
  case (Cons now nows)
  then show ?case
    by (auto split: sum.splits dest: ThreadRun_pass_same)
qed

text \<open>
  Claim C2 at the timer with one entry, armed at clock reading 0 for one
  millisecond and linked into slot 1 of level 0: the pass at clock reading 2 ms
  computes the destination points, with 2 for level 0, and returns the timer as it
  was. The cursor of level 0 is still 0, the entry is still linked, no callback
  has run, and \<open>lastT\<close> is still 0.
\<close>

theorem ThreadRun_pass_fires_nothing:
  "slots armed_ms ! 0 ! 1 = [0] \<and> fired armed_ms = [] \<and> lastT armed_ms = 0
   \<and> points armed_ms ! 0 = 0
   \<and> ThreadRun_pass 2000000 armed_ms = Inr ([2, 0, 0, 0, 0, 0, 0], armed_ms)"
proof -
  have "map_sum id fst (ThreadRun_pass 2000000 armed_ms) = Inr [2, 0, 0, 0, 0, 0, 0]"
    by code_simp
  then obtain t' where p: "ThreadRun_pass 2000000 armed_ms = Inr ([2, 0, 0, 0, 0, 0, 0], t')"
    by (cases "ThreadRun_pass 2000000 armed_ms") auto
  from ThreadRun_pass_same [OF p] p
  have "ThreadRun_pass 2000000 armed_ms = Inr ([2, 0, 0, 0, 0, 0, 0], armed_ms)" by simp
  moreover have "slots armed_ms ! 0 ! 1 = [0]" by code_simp
  moreover have "fired armed_ms = []" by code_simp
  moreover have "lastT armed_ms = 0" by code_simp
  moreover have "points armed_ms ! 0 = 0" by code_simp
  ultimately show ?thesis by blast
qed

section \<open>Linking\<close>

lemma mset_concat_push:
  "i < length w \<Longrightarrow> mset (concat (w[i := w ! i @ [x]])) = add_mset x (mset (concat w))"
proof (induction w arbitrary: i)
  case Nil
  then show ?case by simp
next
  case (Cons q w)
  then show ?case by (cases i) simp_all
qed

lemma mset_concat_erase:
  "mset (concat (w[i := removeAll x (w ! i)])) \<subseteq># mset (concat w)"
proof (induction w arbitrary: i)
  case Nil
  then show ?case by simp
next
  case (Cons q w)
  show ?case
  proof (cases i)
    case 0
    have "mset (removeAll x q) = filter_mset ((\<noteq>) x) (mset q)"
      by (simp add: removeAll_filter_not_eq)
    then have "mset (removeAll x q) \<subseteq># mset q"
      by (simp only: multiset_filter_subset)
    then show ?thesis using 0 by (simp add: subset_mset.add_mono)
  next
    case (Suc j)
    then show ?thesis using Cons.IH [of j] by simp
  qed
qed

lemma mset_linked_update_eq:
  "l < length ss \<Longrightarrow> mset (concat w') = add_mset x (mset (concat (ss ! l))) \<Longrightarrow>
   mset (concat (concat (ss[l := w']))) = add_mset x (mset (concat (concat ss)))"
proof (induction ss arbitrary: l)
  case Nil
  then show ?case by simp
next
  case (Cons w ss)
  then show ?case by (cases l) simp_all
qed

lemma mset_linked_update_le:
  "l < length ss \<Longrightarrow> mset (concat w') \<subseteq># mset (concat (ss ! l)) \<Longrightarrow>
   mset (concat (concat (ss[l := w']))) \<subseteq># mset (concat (concat ss))"
proof (induction ss arbitrary: l)
  case Nil
  then show ?case by simp
next
  case (Cons w ss)
  then show ?case by (cases l) (simp_all add: subset_mset.add_mono)
qed

lemma linked_push:
  assumes "l < length ss" and "i < length (ss ! l)"
  shows "mset (concat (concat (at_slot (l, i) (push x) ss))) = add_mset x (mset (concat (concat ss)))"
proof -
  have "mset (concat ((ss ! l)[i := ss ! l ! i @ [x]])) = add_mset x (mset (concat (ss ! l)))"
    using assms(2) by (rule mset_concat_push)
  from mset_linked_update_eq [OF assms(1) this] show ?thesis
    using assms by (simp add: at_slot_def push_def)
qed

lemma linked_erase:
  "mset (concat (concat (at_slot r (erase x) ss))) \<subseteq># mset (concat (concat ss))"
proof (cases r)
  case (Pair l i)
  show ?thesis
  proof (cases "l < length ss \<and> i < length (ss ! l)")
    case True
    have "mset (concat ((ss ! l)[i := removeAll x (ss ! l ! i)])) \<subseteq># mset (concat (ss ! l))"
      by (rule mset_concat_erase)
    from mset_linked_update_le [OF conjunct1 [OF True] this] show ?thesis
      using True Pair by (simp add: at_slot_def erase_def)
  next
    case False
    then show ?thesis using Pair by (auto simp: at_slot_def)
  qed
qed

lemma distinct_le:
  assumes "mset ys \<subseteq># mset xs" and "distinct xs"
  shows "distinct ys" and "set ys \<subseteq> set xs"
proof -
  from assms(1) obtain Z where z: "mset xs = mset ys + Z"
    by (auto simp: mset_subset_eq_exists_conv)
  obtain zs where "mset zs = Z"
    using ex_mset by blast
  with z have "mset xs = mset (ys @ zs)"
    by simp
  from mset_eq_imp_distinct_iff [OF this] assms(2) have "distinct (ys @ zs)"
    by simp
  then show "distinct ys"
    by simp
  from set_mset_mono [OF assms(1)] show "set ys \<subseteq> set xs"
    by simp
qed

lemma call_slot: "slot (fst (call e)) = None \<or> slot (fst (call e)) = slot e"
  by (cases "active e") (simp_all add: call_open call_held)

lemma fire_fields:
  "slots (fire x t) = slots t" "pool (fire x t) = pool t" "brk (fire x t) = brk t"
  "heap (fire x t) = (heap t)(x := fst (call (heap t x)))"
  by (simp_all add: fire_def split: prod.splits)

lemma inv_fire: "timer_inv t \<Longrightarrow> timer_inv (fire x t)"
  using call_slot [of "heap t x"]
  by (auto simp: timer_inv_def linked_def fire_fields)

lemma cancel_fields:
  "pool (snd (cancel x t)) = pool t" "brk (snd (cancel x t)) = brk t"
  "slot (heap (snd (cancel x t)) y) = slot (heap t y)"
  "slots (snd (cancel x t)) = slots t
   \<or> (\<exists>r. slot (heap t x) = Some r \<and> slots (snd (cancel x t)) = at_slot r (erase x) (slots t))"
  by (cases "active (heap t x)"; simp add: cancel_held cancel_open split: option.splits)+

lemma inv_cancel:
  assumes "timer_inv t"
  shows "timer_inv (snd (cancel x t))"
proof -
  let ?t = "snd (cancel x t)"
  have le: "mset (linked ?t) \<subseteq># mset (linked t)"
    using cancel_fields(4) [of x t] linked_erase [of _ x "slots t"]
    by (auto simp: linked_def)
  have d: "distinct (linked t)" using assms by (simp add: timer_inv_def)
  note l = distinct_le [OF le d]
  show ?thesis
    using assms l unfolding timer_inv_def cancel_fields by blast
qed

lemma inv_StopTimer: "timer_inv t \<Longrightarrow> timer_inv (snd (StopTimer tid t))"
  by (auto simp: StopTimer_def Timer_StopTimer_def inv_cancel split: option.splits)

lemma slot_of_range:
  "slot_of w t = Inr (l, i) \<Longrightarrow> l < length (slots t) \<and> i < length (slots t ! l)"
  by (auto simp: slot_of_def split: prod.splits if_splits)

lemma StartTimer_slot_range:
  "StartTimer_slot now dur t = Inr (l, i) \<Longrightarrow> l < length (slots t) \<and> i < length (slots t ! l)"
  by (auto simp: StartTimer_slot_def split: if_splits sum.splits dest: slot_of_range)

lemma NewElement_inv:
  assumes "timer_inv t"
  shows "fst (NewElement t) < brk (snd (NewElement t))"
    and "fst (NewElement t) \<notin> set (linked t)"
    and "fst (NewElement t) \<notin> set (pool (snd (NewElement t)))"
    and "distinct (pool (snd (NewElement t)))"
    and "set (pool (snd (NewElement t))) \<subseteq> set (pool t)"
    and "brk t \<le> brk (snd (NewElement t))"
    and "\<forall>y < brk (snd (NewElement t)). y \<noteq> fst (NewElement t)
           \<longrightarrow> slot (heap (snd (NewElement t)) y) = None"
  using assms
  by (auto simp: timer_inv_def NewElement_def less_Suc_eq split: list.splits)

lemma inv_StartTimer:
  assumes "timer_inv t" and "StartTimer now dur c t = Inr (tid, t')"
  shows "timer_inv t'"
proof -
  let ?x = "fst (NewElement t)"
  let ?t1 = "snd (NewElement t)"
  from assms(2) obtain r where r: "StartTimer_slot now dur t = Inr r"
    and t': "t' = ?t1\<lparr>heap := (heap ?t1)(?x := init c (heap ?t1 ?x)),
                       slots := at_slot r (push ?x) (slots t)\<rparr>"
    unfolding StartTimer_unfold by (auto split: sum.splits)
  obtain l i where li: "r = (l, i)" by (cases r)
  from StartTimer_slot_range [OF r [unfolded li]]
  have rg: "l < length (slots t)" "i < length (slots t ! l)" by simp_all
  have m: "mset (linked t') = add_mset ?x (mset (linked t))"
    unfolding t' li linked_def using linked_push [OF rg] by simp
  note n = NewElement_inv [OF assms(1)]
  have d: "distinct (linked t)" and b: "\<forall>y \<in> set (linked t). y < brk t"
    and p: "\<forall>y \<in> set (pool t). y < brk t \<and> y \<notin> set (linked t)"
    using assms(1) by (simp_all add: timer_inv_def)
  have s: "set (linked t') = insert ?x (set (linked t))"
    using m by (metis set_mset_add_mset_insert set_mset_mset)
  have "distinct (linked t')"
  proof -
    have "mset (linked t') = mset (?x # linked t)" using m by simp
    from mset_eq_imp_distinct_iff [OF this] show ?thesis using d n(2) by simp
  qed
  moreover have "\<forall>y \<in> set (linked t'). y < brk t'"
    unfolding s using b n(1,6) by (auto simp: t')
  moreover have "distinct (pool t')"
    using n(4) by (simp add: t')
  moreover have "\<forall>y \<in> set (pool t'). y < brk t' \<and> y \<notin> set (linked t')"
  proof
    fix y
    assume "y \<in> set (pool t')"
    then have y: "y \<in> set (pool ?t1)" by (simp add: t')
    with n(5) have "y \<in> set (pool t)" by blast
    with p have "y < brk t" "y \<notin> set (linked t)" by simp_all
    moreover have "y \<noteq> ?x" using y n(3) by blast
    ultimately show "y < brk t' \<and> y \<notin> set (linked t')"
      unfolding s using n(6) by (simp add: t')
  qed
  moreover have "\<forall>y < brk t'. slot (heap t' y) = None"
    using n(7) by (auto simp: t' init_slot)
  ultimately show ?thesis
    unfolding timer_inv_def by blast
qed

lemma inv_step: "timer_inv t \<Longrightarrow> step a t = Inr t' \<Longrightarrow> timer_inv t'"
proof (cases a)
  case (Start now dur c)
  assume "timer_inv t" "step a t = Inr t'"
  then show ?thesis
    using Start by (cases "StartTimer now dur c t") (auto dest: inv_StartTimer)
next
  case (Stop tid)
  assume "timer_inv t" "step a t = Inr t'"
  then show ?thesis using Stop by (auto simp: inv_StopTimer)
next
  case (FireAt x)
  assume "timer_inv t" "step a t = Inr t'"
  then show ?thesis using FireAt by (auto simp: inv_fire)
next
  case (Pass now)
  assume "timer_inv t" "step a t = Inr t'"
  then show ?thesis
    using Pass by (cases "ThreadRun_pass now t") (auto dest: ThreadRun_pass_same)
qed

lemma inv_run: "timer_inv t \<Longrightarrow> run as t = Inr t' \<Longrightarrow> timer_inv t'"
proof (induction as arbitrary: t)
  case Nil
  then show ?case by simp
next
  case (Cons a as)
  then show ?case
    by (cases "step a t") (auto dest: inv_step)
qed

lemma concat_concat_empty:
  "\<forall>w \<in> set ss. \<forall>q \<in> set w. q = [] \<Longrightarrow> concat (concat ss) = []"
  by (induction ss) auto

lemma inv_ctor:
  assumes "Timer_ctor w now prec prec_cast years4 mem = Some (Inr t)"
  shows "timer_inv t"
proof -
  from assms obtain L where sl: "slots t = replicate 4 [] # replicate (L - 1) (replicate 64 [])"
    and pl: "pool t = []" and bk: "brk t = 0"
    by (auto simp: Timer_ctor_def split: option.splits sum.splits if_splits)
  have e: "linked t = []"
    unfolding linked_def sl by (intro concat_concat_empty) auto
  show ?thesis
    unfolding timer_inv_def e using pl bk by simp
qed

text \<open>
  Claim C9. After any history of \<open>StartTimer\<close> (which draws an entry, runs \<open>init\<close>
  and pushes it), \<open>StopTimer\<close> (cancel), fire attempts and driver passes on a
  constructed timer, every address is linked into the slots at most once, and the
  slot pointer of every allocated entry is null or names a slot that holds the
  entry.
\<close>

theorem entry_linked_at_most_once:
  assumes "Timer_ctor w now prec prec_cast years4 mem = Some (Inr t0)"
  shows "case run as t0 of
           Inl e \<Rightarrow> True
         | Inr t \<Rightarrow>
             count_list (linked t) x \<le> 1
             \<and> (x < brk t \<longrightarrow>
                  slot (heap t x) = None
                  \<or> (\<exists>l i. slot (heap t x) = Some (l, i) \<and> l < length (slots t)
                         \<and> i < length (slots t ! l) \<and> x \<in> set (slots t ! l ! i)))"
proof (cases "run as t0")
  case (Inl e)
  then show ?thesis by simp
next
  case (Inr t)
  from inv_run [OF inv_ctor [OF assms] Inr] have i: "timer_inv t" .
  then have "distinct (linked t)" by (simp add: timer_inv_def)
  then have "count_list (linked t) x \<le> 1"
    by (metis count_mset distinct_count_atmost_1 le_refl zero_le_one)
  moreover have "x < brk t \<longrightarrow> slot (heap t x) = None"
    using i by (simp add: timer_inv_def)
  ultimately show ?thesis using Inr by simp
qed

theorem entry_linked_at_most_once_witness:
  "Timer_ctor 64 0 1000000 1000000 126227808000000000 mem0 = Some (Inr wheel_ms)
   \<and> map_sum id linked (run history_ms wheel_ms) = Inr [0, 1]
   \<and> map_sum id brk (run history_ms wheel_ms) = Inr 2
   \<and> (case run history_ms wheel_ms of
         Inl e \<Rightarrow> True
       | Inr t \<Rightarrow>
           count_list (linked t) 1 \<le> 1
           \<and> (1 < brk t \<longrightarrow>
                slot (heap t 1) = None
                \<or> (\<exists>l i. slot (heap t 1) = Some (l, i) \<and> l < length (slots t)
                       \<and> i < length (slots t ! l) \<and> 1 \<in> set (slots t ! l ! i))))"
proof -
  note c = ctor_wheel_ms
  have l: "map_sum id linked (run history_ms wheel_ms) = Inr [0, 1]"
    by code_simp
  have b: "map_sum id brk (run history_ms wheel_ms) = Inr 2"
    by code_simp
  from entry_linked_at_most_once [OF c, where as = history_ms and x = 1] c l b show ?thesis
    by blast
qed

section \<open>StopTimer\<close>

lemma run_slot_null:
  assumes "Timer_ctor w now prec prec_cast years4 mem = Some (Inr t0)"
    and "run ops t0 = Inr t" and "x < brk t"
  shows "slot (heap t x) = None"
  using inv_run [OF inv_ctor [OF assms(1)] assms(2)] assms(3) by (simp add: timer_inv_def)

lemma cancel_slot_null: "slot (heap t x) = None \<Longrightarrow> slots (snd (cancel x t)) = slots t"
  by (cases "active (heap t x)") (simp_all add: cancel_held cancel_open)

text \<open>
  Claim C4, as the code has it. \<open>StopTimer\<close> on an empty handle (no entry or no
  timer) returns true and changes nothing. On any other handle it is \<open>cancel\<close> on
  the entry of the handle, which returns true exactly when the gate was open,
  that is when it acquires it: the gate is then held for good, the entry is erased
  from the slot its slot pointer names when that is not null, and every later fire
  or cancel attempt leaves the timer as it is, so that the callback does not run
  afterwards and every later cancel returns false. It returns false exactly when
  the gate was held, and then the timer is unchanged. The gate of an entry that
  has fired is open again: after a fire attempt on an open gate the callback has
  run and \<open>StopTimer\<close> returns true. On a timer reached from the constructor the
  slot pointer of every allocated entry is null, and \<open>StopTimer\<close> changes no slot.
\<close>

theorem StopTimer_resolves:
  "(\<not> TimerId_bool tid \<longrightarrow> StopTimer tid t = (True, t))
   \<and> (TimerId_bool tid \<and> elem tid = Some x \<longrightarrow>
        StopTimer tid t = cancel x t
        \<and> (fst (cancel x t) \<longleftrightarrow> \<not> active (heap t x))
        \<and> (active (heap t x) \<longrightarrow> cancel x t = (False, t))
        \<and> (\<not> active (heap t x) \<longrightarrow>
              snd (cancel x t) =
                (case slot (heap t x) of
                   None \<Rightarrow> t\<lparr>heap := (heap t)(x := (heap t x)\<lparr>active := True\<rparr>)\<rparr>
                 | Some r \<Rightarrow> t\<lparr>heap := (heap t)(x := (heap t x)\<lparr>active := True\<rparr>),
                               slots := at_slot r (erase x) (slots t)\<rparr>)
              \<and> (\<forall>l i. slot (heap t x) = Some (l, i) \<and> l < length (slots t)
                        \<and> i < length (slots t ! l)
                     \<longrightarrow> x \<notin> set (slots (snd (cancel x t)) ! l ! i))
              \<and> (\<forall>as. attempts x as (snd (cancel x t))
                        = (replicate (count_list as Cancel) False, snd (cancel x t)))
              \<and> fired (fire x t) = fired t @ [(x, (heap t x)\<lparr>active := True, slot := None\<rparr>)]
              \<and> fst (cancel x (fire x t)))
        \<and> (Timer_ctor w now prec prec_cast years4 mem = Some (Inr t0) \<and> run ops t0 = Inr t
              \<and> x < brk t \<longrightarrow>
            slot (heap t x) = None \<and> slots (snd (cancel x t)) = slots t))"
proof (intro conjI impI)
  assume "\<not> TimerId_bool tid"
  then show "StopTimer tid t = (True, t)" by (rule StopTimer_empty)
next
  assume h: "TimerId_bool tid \<and> elem tid = Some x"
  then show "StopTimer tid t = cancel x t" by (simp add: StopTimer_cancel)
  show "fst (cancel x t) \<longleftrightarrow> \<not> active (heap t x)"
    by (cases "active (heap t x)") (simp_all add: cancel_held cancel_open)
  {
    assume "active (heap t x)"
    then show "cancel x t = (False, t)" by (rule cancel_held)
  }
  {
    assume o: "\<not> active (heap t x)"
    show sn: "snd (cancel x t) =
                (case slot (heap t x) of
                   None \<Rightarrow> t\<lparr>heap := (heap t)(x := (heap t x)\<lparr>active := True\<rparr>)\<rparr>
                 | Some r \<Rightarrow> t\<lparr>heap := (heap t)(x := (heap t x)\<lparr>active := True\<rparr>),
                               slots := at_slot r (erase x) (slots t)\<rparr>)"
      using o by (simp add: cancel_open)
    have sl: "slots (snd (cancel x t)) =
                  (case slot (heap t x) of None \<Rightarrow> slots t
                   | Some r \<Rightarrow> at_slot r (erase x) (slots t))"
      unfolding sn by (simp split: option.splits)
    show "\<forall>l i. slot (heap t x) = Some (l, i) \<and> l < length (slots t)
                        \<and> i < length (slots t ! l)
                     \<longrightarrow> x \<notin> set (slots (snd (cancel x t)) ! l ! i)"
      unfolding sl using at_slot_erase_not_member by auto
    have a: "active (heap (snd (cancel x t)) x)"
      using o by (rule cancel_open_facts)
    show "\<forall>as. attempts x as (snd (cancel x t))
                        = (replicate (count_list as Cancel) False, snd (cancel x t))"
      using attempts_held [OF a] by blast
    show "fired (fire x t) = fired t @ [(x, (heap t x)\<lparr>active := True, slot := None\<rparr>)]"
      using o by (simp add: fire_open)
    have "\<not> active (heap (fire x t) x)"
      using o by (simp add: fire_open)
    then show "fst (cancel x (fire x t))"
      by (rule cancel_open_facts)
  }
  {
    assume r: "Timer_ctor w now prec prec_cast years4 mem = Some (Inr t0) \<and> run ops t0 = Inr t
              \<and> x < brk t"
    then show n: "slot (heap t x) = None"
      using run_slot_null [of w now prec prec_cast years4 mem t0 ops t x] by blast
    then show "slots (snd (cancel x t)) = slots t"
      by (rule cancel_slot_null)
  }
qed

lemma run_armed_ms: "run [Start 0 1000000 ''tick''] wheel_ms = Inr armed_ms"
proof -
  have "StartTimer_slot 0 1000000 wheel_ms = Inr (0, 1)"
    by code_simp
  then obtain tid t where s: "StartTimer 0 1000000 ''tick'' wheel_ms = Inr (tid, t)"
    unfolding StartTimer_unfold by simp
  then show ?thesis
    by (simp add: armed_ms_def)
qed

theorem StopTimer_resolves_witness:
  "\<not> TimerId_bool \<lparr>elem = None, timer = True\<rparr>
   \<and> StopTimer \<lparr>elem = None, timer = True\<rparr> armed_ms = (True, armed_ms)
   \<and> TimerId_bool \<lparr>elem = Some 0, timer = True\<rparr>
   \<and> Timer_ctor 64 0 1000000 1000000 126227808000000000 mem0 = Some (Inr wheel_ms)
   \<and> run [Start 0 1000000 ''tick''] wheel_ms = Inr armed_ms
   \<and> 0 < brk armed_ms
   \<and> \<not> active (heap armed_ms 0)
   \<and> slots armed_ms ! 0 ! 1 = [0]
   \<and> fst (StopTimer \<lparr>elem = Some 0, timer = True\<rparr> armed_ms)
   \<and> slots (snd (cancel 0 armed_ms)) = slots armed_ms
   \<and> attempts 0 [Fire, Cancel, Fire] (snd (cancel 0 armed_ms))
       = ([False], snd (cancel 0 armed_ms))
   \<and> fst (cancel 0 (fire 0 armed_ms))
   \<and> slot (heap linked_ms 0) = Some (0, 1)
   \<and> \<not> active (heap linked_ms 0)
   \<and> slots linked_ms ! 0 ! 1 = [0]
   \<and> slots (snd (cancel 0 linked_ms)) ! 0 ! 1 = []"
proof -
  have 1: "\<not> TimerId_bool \<lparr>elem = None, timer = True\<rparr>"
    by (simp add: TimerId_bool_def)
  have 2: "TimerId_bool \<lparr>elem = Some 0, timer = True\<rparr>
           \<and> elem \<lparr>elem = Some 0, timer = True\<rparr> = Some 0"
    by (simp add: TimerId_bool_def)
  note c = ctor_wheel_ms
  note r = run_armed_ms
  have 3: "0 < brk armed_ms" by code_simp
  have 4: "\<not> active (heap armed_ms 0)" by code_simp
  have 5: "slots armed_ms ! 0 ! 1 = [0]" by code_simp
  have 6: "slot (heap linked_ms 0) = Some (0, 1)" by code_simp
  have 7: "\<not> active (heap linked_ms 0)" by code_simp
  have 8: "slots linked_ms ! 0 ! 1 = [0]" by code_simp
  have 9: "(0::nat) < length (slots linked_ms) \<and> 1 < length (slots linked_ms ! 0)" by code_simp
  note a = StopTimer_resolves [of "\<lparr>elem = None, timer = True\<rparr>" armed_ms 0]
  note b = StopTimer_resolves [of "\<lparr>elem = Some 0, timer = True\<rparr>" armed_ms 0
             64 0 1000000 1000000 126227808000000000 mem0 wheel_ms "[Start 0 1000000 ''tick'']"]
  note l = StopTimer_resolves [of "\<lparr>elem = Some 0, timer = True\<rparr>" linked_ms 0]
  from a 1 have e: "StopTimer \<lparr>elem = None, timer = True\<rparr> armed_ms = (True, armed_ms)"
    by blast
  from b 2 4 have f: "fst (StopTimer \<lparr>elem = Some 0, timer = True\<rparr> armed_ms)"
    by metis
  from b 2 c r 3 have g: "slots (snd (cancel 0 armed_ms)) = slots armed_ms"
    by blast
  from b 2 4 have "\<forall>as. attempts 0 as (snd (cancel 0 armed_ms))
                        = (replicate (count_list as Cancel) False, snd (cancel 0 armed_ms))"
    by blast
  then have "attempts 0 [Fire, Cancel, Fire] (snd (cancel 0 armed_ms))
        = (replicate (count_list [Fire, Cancel, Fire] Cancel) False, snd (cancel 0 armed_ms))"
    by (rule spec)
  then have h: "attempts 0 [Fire, Cancel, Fire] (snd (cancel 0 armed_ms))
        = ([False], snd (cancel 0 armed_ms))"
    by simp
  from b 2 4 have i: "fst (cancel 0 (fire 0 armed_ms))"
    by blast
  from l 2 7 have "\<forall>la i. slot (heap linked_ms 0) = Some (la, i) \<and> la < length (slots linked_ms)
                        \<and> i < length (slots linked_ms ! la)
                     \<longrightarrow> 0 \<notin> set (slots (snd (cancel 0 linked_ms)) ! la ! i)"
    by blast
  with 6 9 have "0 \<notin> set (slots (snd (cancel 0 linked_ms)) ! 0 ! 1)"
    by blast
  moreover have "set (slots (snd (cancel 0 linked_ms)) ! 0 ! 1) \<subseteq> {0}"
    by code_simp
  ultimately have j: "slots (snd (cancel 0 linked_ms)) ! 0 ! 1 = []"
    by (cases "slots (snd (cancel 0 linked_ms)) ! 0 ! 1") auto
  show ?thesis
    using 1 2 c r 3 4 5 e f g h i 6 7 8 j by blast
qed

text \<open>
  Claim C4, as stated, fails on the armed entry at address 0 after it has fired:
  the callback has run, and \<open>StopTimer\<close> on its handle returns true, where the claim
  has it return false for an entry that has fired and has a true result mean that
  the callback never executes.
\<close>

theorem StopTimer_after_fire_counterexample:
  "map fst (fired (fire 0 armed_ms)) = [0]
   \<and> fst (StopTimer \<lparr>elem = Some 0, timer = True\<rparr> (fire 0 armed_ms)) = True
   \<and> map fst (fired (snd (StopTimer \<lparr>elem = Some 0, timer = True\<rparr> (fire 0 armed_ms)))) = [0]"
  by code_simp

end
